theory Spec2Isabelle
  imports Complex_Main "HOL-Library.Multiset"
begin

section \<open>WebDAW core engine (script.js)\<close>

text \<open>
  The engine of script.js keeps everything in one object, \<open>DAW\<close>; its functions read and
  assign the fields of that object. Here the object is a record and every function takes
  the record and returns the updated one.

  Numbers. A JavaScript number is an IEEE double. Counters that only ever hold small
  non-negative integers (\<open>currentStep\<close>, \<open>stepCount\<close>, channel ids, track indices, timer
  handles) are \<open>nat\<close>; semitone pitches are \<open>int\<close>. The numbers of the transport (the
  tempo, the next-event time, the look-ahead window, the duration the scheduler computes
  for a note) are doubles, \<open>jsnum\<close> below, with the rounding of each operation, the
  infinities, \<open>NaN\<close> and the negative zero: whether the scheduler's loop ends and which
  timestamps it produces depend on them. What a voice or a sample buffer is made of (the
  arguments \<open>playNote\<close> hands to Web Audio, the samples of a preset) are \<open>real\<close>, with
  \<open>Math.pow\<close>, \<open>Math.exp\<close> and \<open>Math.sin\<close> as the exact functions; the rounding there and
  what Web Audio does with an argument (its float parameters, its refusal of a negative
  or non-finite time) are not part of the model.

  What is outside the file's own code is kept to what the code uses of it: the
  AudioContext is the list of voices created in it, its clock reading is an argument
  (\<open>now\<close>), \<open>setTimeout\<close>/\<open>clearTimeout\<close> are a list of armed timer handles, and
  \<open>Math.random\<close> is a sequence of draws handed to the function that draws. Drawing on the
  page (DOM, canvas) is left out.
\<close>

subsection \<open>JavaScript numbers\<close>

text \<open>A double: a finite value other than the negative zero (\<open>Fin\<close>, the positive zero is
  \<open>Fin 0\<close>), the negative zero, an infinity or \<open>NaN\<close>.\<close>

datatype jsnum = Fin real | NegZero | PosInf | NegInf | NaN

fun numVal :: "jsnum \<Rightarrow> real" where
  "numVal (Fin r) = r"
| "numVal _ = 0"

fun isFinite :: "jsnum \<Rightarrow> bool" where
  "isFinite (Fin r) = True"
| "isFinite NegZero = True"
| "isFinite _ = False"

text \<open>The sign bit.\<close>

fun isNeg :: "jsnum \<Rightarrow> bool" where
  "isNeg (Fin r) = (r < 0)"
| "isNeg NegZero = True"
| "isNeg NegInf = True"
| "isNeg _ = False"

definition signedZero :: "bool \<Rightarrow> jsnum" where
  "signedZero neg = (if neg then NegZero else Fin 0)"

definition signedInf :: "bool \<Rightarrow> jsnum" where
  "signedInf neg = (if neg then NegInf else PosInf)"

definition pow2 :: "int \<Rightarrow> real" where
  "pow2 e = (if 0 \<le> e then 2 ^ nat e else 1 / 2 ^ nat (- e))"

text \<open>Rounding to the nearest integer, a tie to the even one.\<close>

definition rne :: "real \<Rightarrow> int" where
  "rne q = (let f = \<lfloor>q\<rfloor>; r = q - of_int f
            in if r < 1/2 then f else if 1/2 < r then f + 1 else if even f then f else f + 1)"

text \<open>Rounding a real to the nearest double, a tie to the even significand (the rounding
  of every operation on doubles). In the binade of exponent \<open>e\<close> the doubles are the
  multiples of \<open>2 ^ (e - 52)\<close>; below \<open>2 ^ -1022\<close> the spacing stays \<open>2 ^ -1074\<close>
  (subnormal numbers); a result of \<open>2 ^ 1024\<close> or more is an infinity, and a result of no
  multiple at all is a zero with the sign of the number.\<close>

definition roundNum :: "real \<Rightarrow> jsnum" where
  "roundNum r =
     (if r = 0 then Fin 0
      else let a = \<bar>r\<bar>;
               e = max \<lfloor>log 2 a\<rfloor> (- 1022);
               u = pow2 (e - 52);
               m = rne (a / u)
           in if m = 0 then signedZero (r < 0)
              else if pow2 1024 \<le> of_int m * u then signedInf (r < 0)
              else Fin (sgn r * of_int m * u))"

text \<open>A decimal literal of the source, such as \<open>0.1\<close>, is the double nearest to it.\<close>

definition jsLit :: "real \<Rightarrow> jsnum" where
  "jsLit r = roundNum r"

text \<open>The operators \<open>+\<close>, \<open>*\<close>, \<open>/\<close> and \<open><\<close> on doubles.\<close>

definition jsAdd :: "jsnum \<Rightarrow> jsnum \<Rightarrow> jsnum" where
  "jsAdd x y =
     (if x = NaN \<or> y = NaN then NaN
      else if x = PosInf then (if y = NegInf then NaN else PosInf)
      else if x = NegInf then (if y = PosInf then NaN else NegInf)
      else if y = PosInf then PosInf
      else if y = NegInf then NegInf
      else if numVal x + numVal y = 0 then (if x = NegZero \<and> y = NegZero then NegZero else Fin 0)
      else roundNum (numVal x + numVal y))"

definition jsMul :: "jsnum \<Rightarrow> jsnum \<Rightarrow> jsnum" where
  "jsMul x y =
     (if x = NaN \<or> y = NaN then NaN
      else if \<not> isFinite x \<or> \<not> isFinite y then
        (if (isFinite x \<and> numVal x = 0) \<or> (isFinite y \<and> numVal y = 0) then NaN
         else signedInf (isNeg x \<noteq> isNeg y))
      else if numVal x * numVal y = 0 then signedZero (isNeg x \<noteq> isNeg y)
      else roundNum (numVal x * numVal y))"

definition jsDiv :: "jsnum \<Rightarrow> jsnum \<Rightarrow> jsnum" where
  "jsDiv x y =
     (if x = NaN \<or> y = NaN then NaN
      else if \<not> isFinite x then (if \<not> isFinite y then NaN else signedInf (isNeg x \<noteq> isNeg y))
      else if \<not> isFinite y then signedZero (isNeg x \<noteq> isNeg y)
      else if numVal y = 0 then (if numVal x = 0 then NaN else signedInf (isNeg x \<noteq> isNeg y))
      else if numVal x = 0 then signedZero (isNeg x \<noteq> isNeg y)
      else roundNum (numVal x / numVal y))"

definition jsLt :: "jsnum \<Rightarrow> jsnum \<Rightarrow> bool" where
  "jsLt x y =
     (if x = NaN \<or> y = NaN then False
      else if x = PosInf \<or> y = NegInf then False
      else if x = NegInf \<or> y = PosInf then True
      else numVal x < numVal y)"

subsection \<open>Data\<close>

record roll_note =
  start :: real
  duration :: real
  pitch :: int
  velocity :: real

record audio_buffer =
  frames :: nat
  bufferRate :: real
  channelData :: "real list list"

text \<open>\<open>AudioBuffer.duration\<close>: the number of sample frames over the sample rate.\<close>

definition bufferDuration :: "audio_buffer \<Rightarrow> real" where
  "bufferDuration b = real (frames b) / bufferRate b"

record channel =
  ch_id :: nat
  ch_name :: string
  ch_type :: string
  buffer :: "audio_buffer option"
  volume :: real
  pan :: real
  ch_pitch :: int
  targetMixerTrack :: nat
  steps :: "bool list"
  pianoRollNotes :: "roll_note list"

text \<open>Where a node's output goes: the input node of the mixer track stored at a position
  of \<open>DAW.mixerTracks\<close>, or \<open>DAW.masterGain\<close>.\<close>

datatype dest = TrackInput nat | MasterGain

record mixer_track =
  index :: nat
  mt_output :: dest
  mt_gain :: real
  mt_volume :: real
  mt_pan :: real
  effects :: "nat list"

text \<open>A voice is the chain of nodes one call of \<open>playNote\<close> builds: a buffer source or an
  oscillator, its gain, and the destination the gain is connected to.\<close>

record sampler_voice =
  sv_buffer :: audio_buffer
  sv_playbackRate :: real
  sv_gain :: real
  sv_dest :: dest
  sv_start :: real
  sv_stop :: real

record synth_voice =
  osc_frequency :: real
  osc_dest :: dest
  osc_start :: real
  env_peak :: real
  env_attackEnd :: real
  env_sustain :: real
  env_decayEnd :: real
  env_releaseStart :: real
  env_releaseEnd :: real
  osc_stop :: real

datatype voice = SamplerVoice sampler_voice | SynthVoice synth_voice

datatype ctx_state = Suspended | Running

record daw =
  sampleRate :: real
  ctxState :: ctx_state
  resumeRequested :: bool
  voices :: "voice list"
  isPlaying :: bool
  tempo :: jsnum
  currentStep :: nat
  nextNoteTime :: jsnum
  lookahead :: jsnum
  scheduleAheadTime :: jsnum
  timerID :: "nat option"
  channels :: "channel list"
  mixerTracks :: "mixer_track list"
  selectedChannelIndex :: nat
  stepCount :: nat
  pending :: "nat list"
  nextTimer :: nat
  emitted :: "(nat \<times> jsnum) list"

text \<open>
  \<open>voices\<close> are the nodes created in \<open>DAW.ctx\<close>; \<open>pending\<close> are the handles of the armed
  timers and \<open>nextTimer\<close> the handle \<open>setTimeout\<close> returns next; \<open>emitted\<close> records each
  call \<open>scheduleNote(stepNumber, time)\<close>, which the source shows on the transport display.
\<close>

text \<open>The object literal \<open>DAW\<close> (lines 23-43), with the AudioContext that
  \<open>AudioEngine.init\<close> creates first; the context is taken as suspended, its state before
  the first click on the page.\<close>

definition DAW :: "real \<Rightarrow> daw" where
  "DAW sr = \<lparr> sampleRate = sr, ctxState = Suspended, resumeRequested = False, voices = [],
     isPlaying = False, tempo = Fin 130, currentStep = 0, nextNoteTime = Fin 0,
     lookahead = Fin 25, scheduleAheadTime = jsLit 0.1, timerID = None, channels = [], mixerTracks = [],
     selectedChannelIndex = 0, stepCount = 16, pending = [], nextTimer = 0, emitted = [] \<rparr>"

subsection \<open>ProceduralAudio.generate\<close>

text \<open>\<open>ctx.createBuffer(n, length, sampleRate)\<close>: the length is converted to an unsigned
  integer by truncation, and the channels start as silence.\<close>

definition createBuffer :: "nat \<Rightarrow> real \<Rightarrow> real \<Rightarrow> audio_buffer" where
  "createBuffer n len sr =
     \<lparr> frames = nat \<lfloor>len\<rfloor>, bufferRate = sr,
       channelData = replicate n (replicate (nat \<lfloor>len\<rfloor>) 0) \<rparr>"

text \<open>The loop \<open>for (let i = 0; i < length; i++) data[i] = f i\<close>. A write beyond the end of
  a typed array is ignored, which is what list update does.\<close>

function fillLoop :: "(nat \<Rightarrow> real) \<Rightarrow> real \<Rightarrow> nat \<Rightarrow> real list \<Rightarrow> real list" where
  "fillLoop f len i data =
     (if real i < len then fillLoop f len (Suc i) (data[i := f i]) else data)"
  by pat_completeness auto
termination
  by (relation "measure (\<lambda>(f, len, i, data). nat \<lceil>len\<rceil> - i)") (auto, linarith)

definition kickSample :: "real \<Rightarrow> nat \<Rightarrow> real" where
  "kickSample sr i =
     (let t = real i / sr; freq = 150 * exp (- t * 15)
      in sin (2 * pi * freq * t) * exp (- t * 5))"

definition snareSample :: "(nat \<Rightarrow> real) \<Rightarrow> real \<Rightarrow> nat \<Rightarrow> real" where
  "snareSample rnd sr i =
     (let t = real i / sr; noise = rnd i * 2 - 1; tone = sin (2 * pi * 200 * t)
      in (noise * 0.8 + tone * 0.2) * exp (- t * 10))"

definition hatSample :: "(nat \<Rightarrow> real) \<Rightarrow> real \<Rightarrow> nat \<Rightarrow> real" where
  "hatSample rnd sr i =
     (let t = real i / sr; noise = rnd i * 2 - 1
      in noise * exp (- t * 40))"

text \<open>\<open>generate(type)\<close>; \<open>rnd i\<close> is the value \<open>Math.random()\<close> returns in iteration \<open>i\<close>.
  The buffer is created before the branches, from the first value of \<open>length\<close>; the hat
  branch assigns \<open>length\<close> afterwards, which bounds its loop only.\<close>

definition generate :: "(nat \<Rightarrow> real) \<Rightarrow> string \<Rightarrow> real \<Rightarrow> audio_buffer" where
  "generate rnd type sr =
     (let len = sr * 0.5;
          buf = createBuffer 1 len sr;
          data = channelData buf ! 0
      in if type = ''kick'' then
           buf\<lparr>channelData := (channelData buf)[0 := fillLoop (kickSample sr) len 0 data]\<rparr>
         else if type = ''snare'' then
           buf\<lparr>channelData := (channelData buf)[0 := fillLoop (snareSample rnd sr) len 0 data]\<rparr>
         else if type = ''hat'' then
           (let len' = sr * 0.1
            in buf\<lparr>channelData := (channelData buf)[0 := fillLoop (hatSample rnd sr) len' 0 data]\<rparr>)
         else buf)"

subsection \<open>MixerTrack, Channel, AudioEngine\<close>

text \<open>\<open>new MixerTrack(index)\<close>, given the tracks that exist when it is built.\<close>

definition MixerTrack :: "nat \<Rightarrow> mixer_track list \<Rightarrow> mixer_track" where
  "MixerTrack i tracks =
     \<lparr> index = i,
       mt_output = (if i > 0 then (if tracks \<noteq> [] then TrackInput 0 else MasterGain)
                    else MasterGain),
       mt_gain = 1, mt_volume = 0.8, mt_pan = 0, effects = [] \<rparr>"

definition setVolume :: "real \<Rightarrow> mixer_track \<Rightarrow> mixer_track" where
  "setVolume val t = t\<lparr>mt_gain := val, mt_volume := val\<rparr>"

text \<open>\<open>new Channel(id, name, type)\<close>.\<close>

definition Channel :: "nat \<Rightarrow> string \<Rightarrow> string \<Rightarrow> channel" where
  "Channel i nm ty =
     \<lparr> ch_id = i, ch_name = nm, ch_type = ty, buffer = None, volume = 0.8, pan = 0,
       ch_pitch = 0, targetMixerTrack = (i mod 16) + 1, steps = replicate 16 False,
       pianoRollNotes = [] \<rparr>"

text \<open>\<open>AudioEngine.createChannel(name, type, sampleKey)\<close>. The key is \<open>None\<close> for \<open>null\<close> or
  a missing argument; an empty string is falsy as well.\<close>

definition createChannel :: "(nat \<Rightarrow> real) \<Rightarrow> string \<Rightarrow> string \<Rightarrow> string option \<Rightarrow> daw \<Rightarrow> daw" where
  "createChannel rnd nm ty sampleKey st =
     (let i = length (channels st);
          ch = Channel i nm ty;
          ch' = (case sampleKey of
                   Some k \<Rightarrow> if ty = ''sampler'' \<and> k \<noteq> [] then ch\<lparr>buffer := Some (generate rnd k (sampleRate st))\<rparr> else ch
                 | None \<Rightarrow> ch)
      in st\<lparr>channels := channels st @ [ch']\<rparr>)"

text \<open>\<open>AudioEngine.init\<close>: seventeen mixer tracks (0 is the master), then the four default
  channels. \<open>rs\<close> and \<open>rh\<close> are the random draws of the snare and of the hat.\<close>

definition init :: "(nat \<Rightarrow> real) \<Rightarrow> (nat \<Rightarrow> real) \<Rightarrow> real \<Rightarrow> daw" where
  "init rs rh sr =
     (let st0 = (DAW sr)\<lparr>mixerTracks := fold (\<lambda>i ts. ts @ [MixerTrack i ts]) [0..<17] []\<rparr>;
          st1 = createChannel rs ''Kick'' ''sampler'' (Some ''kick'') st0;
          st2 = createChannel rs ''Snare'' ''sampler'' (Some ''snare'') st1;
          st3 = createChannel rh ''Hat'' ''sampler'' (Some ''hat'') st2
      in createChannel rh ''Lead'' ''synth'' None st3)"

text \<open>\<open>FileLoader.loadSample\<close>, once the file is decoded to \<open>b\<close>: a sampler channel named by
  the first ten characters of the file name, and then \<open>ch.buffer = buffer\<close>.\<close>

definition loadSample :: "string \<Rightarrow> audio_buffer \<Rightarrow> daw \<Rightarrow> daw" where
  "loadSample fileName b st =
     (let st' = createChannel (\<lambda>_. 0) (take 10 fileName) ''sampler'' None st;
          k = length (channels st)
      in st'\<lparr>channels := (channels st')[k := (channels st' ! k)\<lparr>buffer := Some b\<rparr>]\<rparr>)"

subsection \<open>Channel.playNote\<close>

definition playNote :: "channel \<Rightarrow> real \<Rightarrow> real \<Rightarrow> int \<Rightarrow> real \<Rightarrow> daw \<Rightarrow> daw" where
  "playNote ch time dur p vel st =
     (let dst = (if targetMixerTrack ch < length (mixerTracks st)
                 then TrackInput (targetMixerTrack ch) else MasterGain)
      in if ch_type ch = ''sampler'' \<and> buffer ch \<noteq> None then
           (let b = the (buffer ch);
                playbackRate = 2 powr (real_of_int (ch_pitch ch + (p - 60)) / 12)
            in st\<lparr>voices := voices st @
                 [SamplerVoice \<lparr> sv_buffer = b, sv_playbackRate = playbackRate,
                    sv_gain = volume ch * vel, sv_dest = dst, sv_start = time,
                    sv_stop = time + bufferDuration b / playbackRate \<rparr>]\<rparr>)
         else if ch_type ch = ''synth'' then
           (let attack = 0.01; decay = 0.1; sustain = 0.5; release = 0.2;
                stopTime = time + dur
            in st\<lparr>voices := voices st @
                 [SynthVoice \<lparr> osc_frequency = 440 * 2 powr (real_of_int (p - 69) / 12),
                    osc_dest = dst, osc_start = time,
                    env_peak = volume ch * vel, env_attackEnd = time + attack,
                    env_sustain = volume ch * vel * sustain,
                    env_decayEnd = time + attack + decay,
                    env_releaseStart = stopTime, env_releaseEnd = stopTime + release,
                    osc_stop = stopTime + release + 0.1 \<rparr>]\<rparr>)
         else st)"

text \<open>The destination a voice's gain node is connected to.\<close>

fun voiceDest :: "voice \<Rightarrow> dest" where
  "voiceDest (SamplerVoice v) = sv_dest v"
| "voiceDest (SynthVoice v) = osc_dest v"

subsection \<open>Sequencer\<close>

text \<open>Reading \<open>ch.steps[i]\<close> as a condition: an index beyond the array gives \<open>undefined\<close>,
  which is falsy.\<close>

definition stepActive :: "bool list \<Rightarrow> nat \<Rightarrow> bool" where
  "stepActive ss i = (i < length ss \<and> ss ! i)"

type_synonym play_call = "jsnum \<times> jsnum \<times> int \<times> real"

text \<open>The calls \<open>ch.playNote(time, duration, pitch, velocity)\<close> that the body of
  \<open>DAW.channels.forEach\<close> in \<open>scheduleNote\<close> makes for one channel, in their order: the step
  hit first, then one call for each piano-roll note that passes the test. The duration of
  a note is \<open>note.duration * (60 / DAW.tempo / 4)\<close>, in doubles.\<close>

definition channelCalls :: "jsnum \<Rightarrow> nat \<Rightarrow> jsnum \<Rightarrow> channel \<Rightarrow> play_call list" where
  "channelCalls bpm stepNumber time ch =
     (if stepActive (steps ch) stepNumber then [(time, jsLit 0.1, 60, 1.0)] else []) @
     map (\<lambda>n. (time, jsMul (Fin (duration n)) (jsDiv (jsDiv (Fin 60) bpm) (Fin 4)),
                pitch n, velocity n))
       (filter (\<lambda>n. \<bar>start n - real stepNumber\<bar> < 0.01) (pianoRollNotes ch))"

text \<open>Making the calls: \<open>playNote\<close> gets the values of the time and of the duration. A
  duration that is not finite (the tempo field at 0 or empty makes it \<open>Infinity\<close> or
  \<open>NaN\<close>) has no value among the reals, and \<open>numVal\<close> gives 0 for it: the voices record
  what Web Audio is handed only for finite arguments.\<close>

definition playCalls :: "channel \<Rightarrow> play_call list \<Rightarrow> daw \<Rightarrow> daw" where
  "playCalls ch cs st = fold (\<lambda>(t, d, p, v). playNote ch (numVal t) (numVal d) p v) cs st"

definition scheduleNote :: "nat \<Rightarrow> jsnum \<Rightarrow> daw \<Rightarrow> daw" where
  "scheduleNote stepNumber time st =
     (fold (\<lambda>ch s. playCalls ch (channelCalls (tempo s) stepNumber time ch) s) (channels st) st)
       \<lparr>emitted := emitted st @ [(stepNumber, time)]\<rparr>"

definition nextStep :: "daw \<Rightarrow> daw" where
  "nextStep st =
     (let secondsPerBeat = jsDiv (Fin 60) (tempo st);
          st1 = st\<lparr>nextNoteTime := jsAdd (nextNoteTime st) (jsMul (Fin 0.25) secondsPerBeat),
                   currentStep := currentStep st + 1\<rparr>
      in if currentStep st1 = stepCount st1 then st1\<lparr>currentStep := 0\<rparr> else st1)"

text \<open>The \<open>while\<close> loop of \<open>scheduler\<close>; \<open>now\<close> is the value of \<open>DAW.ctx.currentTime\<close>, a
  finite double. The loop need not end (a negative tempo moves \<open>nextNoteTime\<close> backwards,
  and a step too short for the spacing of doubles leaves it where it is), so its result
  is optional: \<open>None\<close> is a loop that runs on.\<close>

partial_function (option) schedulerLoop :: "real \<Rightarrow> daw \<Rightarrow> daw option" where
  "schedulerLoop now st =
     (if jsLt (nextNoteTime st) (jsAdd (Fin now) (scheduleAheadTime st))
      then schedulerLoop now (nextStep (scheduleNote (currentStep st) (nextNoteTime st) st))
      else Some st)"

text \<open>\<open>DAW.timerID = setTimeout(Sequencer.scheduler, DAW.lookahead)\<close> and
  \<open>clearTimeout(DAW.timerID)\<close>.\<close>

definition setTimeout :: "daw \<Rightarrow> daw" where
  "setTimeout st =
     st\<lparr>timerID := Some (nextTimer st), pending := pending st @ [nextTimer st],
        nextTimer := Suc (nextTimer st)\<rparr>"

definition clearTimeout :: "nat option \<Rightarrow> nat list \<Rightarrow> nat list" where
  "clearTimeout h ps = (case h of None \<Rightarrow> ps | Some i \<Rightarrow> removeAll i ps)"

definition scheduler :: "real \<Rightarrow> daw \<Rightarrow> daw option" where
  "scheduler now st =
     (case schedulerLoop now st of
        None \<Rightarrow> None
      | Some st' \<Rightarrow> Some (if isPlaying st' then setTimeout st' else st'))"

text \<open>\<open>Sequencer.start\<close>; \<open>now\<close> is \<open>DAW.ctx.currentTime\<close>. \<open>ctx.resume()\<close> only asks for the
  clock to run, which the record notes.\<close>

definition start_seq :: "real \<Rightarrow> daw \<Rightarrow> daw option" where
  "start_seq now st =
     (if isPlaying st then Some st
      else scheduler now
             (st\<lparr>resumeRequested := (ctxState st = Suspended \<or> resumeRequested st),
                 isPlaying := True, currentStep := 0, nextNoteTime := Fin now\<rparr>))"

definition stop_seq :: "daw \<Rightarrow> daw" where
  "stop_seq st = st\<lparr>isPlaying := False, pending := clearTimeout (timerID st) (pending st)\<rparr>"

text \<open>An armed timer fires: its handle leaves the pending list and the callback,
  \<open>Sequencer.scheduler\<close>, runs at clock reading \<open>now\<close>.\<close>

definition timerFires :: "nat \<Rightarrow> real \<Rightarrow> daw \<Rightarrow> daw option" where
  "timerFires i now st =
     (if i \<in> set (pending st) then scheduler now (st\<lparr>pending := removeAll i (pending st)\<rparr>)
      else Some st)"



text \<open>The step \<open>nextStep\<close> adds to the next-event time, \<open>0.25 * (60 / tempo)\<close>, and the
  times it produces from a first time \<open>t\<close>: \<open>t\<close>, \<open>t + d\<close>, \<open>(t + d) + d\<close> and so on, each
  sum rounded.\<close>

definition stepDuration :: "jsnum \<Rightarrow> jsnum" where
  "stepDuration bpm = jsMul (Fin 0.25) (jsDiv (Fin 60) bpm)"

fun stamps :: "jsnum \<Rightarrow> jsnum \<Rightarrow> nat \<Rightarrow> jsnum" where
  "stamps t d 0 = t"
| "stamps t d (Suc k) = jsAdd (stamps t d k) d"

text \<open>The voices the call \<open>ch.playNote(t, d, p, v)\<close> creates in state \<open>st\<close>.\<close>

definition callVoices :: "daw \<Rightarrow> channel \<Rightarrow> jsnum \<Rightarrow> jsnum \<Rightarrow> int \<Rightarrow> real \<Rightarrow> voice list" where
  "callVoices st ch t d p v =
     drop (length (voices st)) (voices (playNote ch (numVal t) (numVal d) p v st))"

subsection \<open>User operations\<close>

text \<open>The click handler of step \<open>i\<close> in the row of channel \<open>idx\<close>:
  \<open>ch.steps[i] = !ch.steps[i]\<close>. Writing beyond the end of a JavaScript array extends it;
  the slots in between are holes, which read as falsy.\<close>

definition toggleStep :: "nat \<Rightarrow> bool list \<Rightarrow> bool list" where
  "toggleStep i ss =
     (if i < length ss then ss[i := \<not> ss ! i]
      else ss @ replicate (i - length ss) False @ [True])"

definition stepClick :: "nat \<Rightarrow> nat \<Rightarrow> daw \<Rightarrow> daw" where
  "stepClick idx i st =
     st\<lparr>channels := (channels st)[idx := (channels st ! idx)\<lparr>steps := toggleStep i (steps (channels st ! idx))\<rparr>]\<rparr>"

text \<open>\<open>Array.prototype.findIndex\<close>, with \<open>None\<close> for \<open>-1\<close>.\<close>

fun findIndex :: "('a \<Rightarrow> bool) \<Rightarrow> 'a list \<Rightarrow> nat option" where
  "findIndex P [] = None"
| "findIndex P (x # xs) =
     (if P x then Some 0 else (case findIndex P xs of None \<Rightarrow> None | Some k \<Rightarrow> Some (Suc k)))"

definition zoomX :: real where "zoomX = 20"
definition zoomY :: real where "zoomY = 20"

text \<open>Lines 495-509 of \<open>PianoRoll.handleInput\<close>, on the note list of the selected channel.\<close>

text \<open>The test \<open>n.pitch === pitch && Math.abs(n.start - step) < 0.1\<close> given to
  \<open>findIndex\<close>, and the note that is pushed.\<close>

definition noteMatches :: "int \<Rightarrow> int \<Rightarrow> roll_note \<Rightarrow> bool" where
  "noteMatches p step n = (pitch n = p \<and> \<bar>start n - real_of_int step\<bar> < 0.1)"

definition newNote :: "int \<Rightarrow> int \<Rightarrow> roll_note" where
  "newNote p step = \<lparr> start = real_of_int step, duration = 1, pitch = p, velocity = 1.0 \<rparr>"

definition toggleNote :: "int \<Rightarrow> int \<Rightarrow> roll_note list \<Rightarrow> roll_note list" where
  "toggleNote p step ns =
     (case findIndex (noteMatches p step) ns of
        Some existingIdx \<Rightarrow> take existingIdx ns @ drop (Suc existingIdx) ns
      | None \<Rightarrow> ns @ [newNote p step])"

text \<open>\<open>PianoRoll.handleInput\<close>; \<open>x\<close> and \<open>y\<close> are the pointer's offsets in the canvas.\<close>

definition clickStep :: "real \<Rightarrow> int" where
  "clickStep x = \<lfloor>x / zoomX\<rfloor>"

definition clickPitch :: "real \<Rightarrow> int" where
  "clickPitch y = (let pitchIndex = \<lfloor>y / zoomY\<rfloor> in 84 - pitchIndex)"

definition handleInput :: "real \<Rightarrow> real \<Rightarrow> daw \<Rightarrow> daw" where
  "handleInput x y st =
     (let step = clickStep x;
          p = clickPitch y;
          sel = selectedChannelIndex st
      in if sel < length (channels st) then
           st\<lparr>channels := (channels st)[sel := (channels st ! sel)
                \<lparr>pianoRollNotes := toggleNote p step (pianoRollNotes (channels st ! sel))\<rparr>]\<rparr>
         else st)"


text \<open>The MIDI handler: a note-on plays on the selected channel, if there is one.\<close>

definition midiNoteOn :: "real \<Rightarrow> int \<Rightarrow> real \<Rightarrow> daw \<Rightarrow> daw" where
  "midiNoteOn now nt vel st =
     (if vel > 0 \<and> selectedChannelIndex st < length (channels st)
      then playNote (channels st ! selectedChannelIndex st) now 0.5 nt (vel / 127) st
      else st)"

text \<open>The states the page can be in: after \<open>AudioEngine.init\<close>, and after any handler the
  page installs (transport buttons, tempo field, add-channel button, sample drop, channel
  row, step cell, piano-roll canvas, mixer fader, MIDI input, the look-ahead timer).\<close>

inductive reachable :: "daw \<Rightarrow> bool" where
  r_init: "reachable (init rs rh sr)"
| r_add: "reachable st \<Longrightarrow> reachable (createChannel rnd ''New Synth'' ''synth'' None st)"
| r_load: "reachable st \<Longrightarrow> reachable (loadSample fileName b st)"
| r_select: "reachable st \<Longrightarrow> idx < length (channels st) \<Longrightarrow> reachable (st\<lparr>selectedChannelIndex := idx\<rparr>)"
| r_step: "reachable st \<Longrightarrow> idx < length (channels st) \<Longrightarrow> i < stepCount st \<Longrightarrow> reachable (stepClick idx i st)"
| r_piano: "reachable st \<Longrightarrow> reachable (handleInput x y st)"
| r_tempo: "reachable st \<Longrightarrow> reachable (st\<lparr>tempo := bpm\<rparr>)"
| r_fader: "reachable st \<Longrightarrow> t < length (mixerTracks st) \<Longrightarrow>
     reachable (st\<lparr>mixerTracks := (mixerTracks st)[t := setVolume val (mixerTracks st ! t)]\<rparr>)"
| r_midi: "reachable st \<Longrightarrow> reachable (midiNoteOn now nt vel st)"
| r_start: "reachable st \<Longrightarrow> start_seq now st = Some st' \<Longrightarrow> reachable st'"
| r_stop: "reachable st \<Longrightarrow> reachable (stop_seq st)"
| r_timer: "reachable st \<Longrightarrow> timerFires i now st = Some st' \<Longrightarrow> reachable st'"

subsection \<open>What holds of every state the page reaches\<close>

text \<open>The notes the piano roll itself makes: each is the note a click pushes (one step
  long, full velocity, starting on a step), and no note is there twice.\<close>

definition notesOk :: "roll_note list \<Rightarrow> bool" where
  "notesOk ns = (distinct ns \<and> (\<forall>n \<in> set ns. n = newNote (pitch n) \<lfloor>start n\<rfloor>))"

definition wellFormed :: "daw \<Rightarrow> bool" where
  "wellFormed st =
     (length (mixerTracks st) = 17 \<and> stepCount st = 16 \<and>
      currentStep st < stepCount st \<and>
      (\<forall>i \<in> set (pending st). timerID st = Some i) \<and>
      (\<not> isPlaying st \<longrightarrow> pending st = []) \<and>
      (\<forall>k < length (channels st).
          targetMixerTrack (channels st ! k) = k mod 16 + 1 \<and>
          notesOk (pianoRollNotes (channels st ! k))))"

subsection \<open>Example values\<close>

text \<open>A mono buffer of two frames at four frames a second (half a second), and the default
  Lead channel after one click in the piano roll at step 0, pitch 60.\<close>

definition demoBuffer :: audio_buffer where
  "demoBuffer = \<lparr> frames = 2, bufferRate = 4, channelData = [[0, 0]] \<rparr>"

definition leadWithNote :: channel where
  "leadWithNote = (Channel 3 ''Lead'' ''synth'')
     \<lparr>pianoRollNotes := [\<lparr> start = 0, duration = 1, pitch = 60, velocity = 1 \<rparr>]\<rparr>"



section \<open>Properties\<close>

subsection \<open>The procedural presets\<close>

declare fillLoop.simps [simp del]

lemma length_fillLoop: "length (fillLoop f len i data) = length data"
  by (induction f len i data rule: fillLoop.induct) (subst fillLoop.simps, simp)

lemma fillLoop_nth:
  "k < length data \<Longrightarrow>
   fillLoop f len i data ! k = (if i \<le> k \<and> real k < len then f k else data ! k)"
proof (induction f len i data rule: fillLoop.induct)
  case (1 f len i data)
  show ?case
  proof (cases "real i < len")
    case True
    have "fillLoop f len i data ! k = fillLoop f len (Suc i) (data[i := f i]) ! k"
      using True by (subst fillLoop.simps) simp
    also have "\<dots> = (if Suc i \<le> k \<and> real k < len then f k else data[i := f i] ! k)"
      using "1.IH"[OF True] "1.prems" by simp
    also have "\<dots> = (if i \<le> k \<and> real k < len then f k else data ! k)"
      using True "1.prems" by (cases "k = i") auto
    finally show ?thesis .
  next
    case False
    then have "fillLoop f len i data = data" by (subst fillLoop.simps) simp
    moreover have "\<not> (i \<le> k \<and> real k < len)" using False by auto
    ultimately show ?thesis by (simp only: if_False)
  qed
qed

lemma frames_generate: "frames (generate rnd ty sr) = nat \<lfloor>sr * 0.5\<rfloor>"
  by (simp add: generate_def createBuffer_def Let_def)

lemma bufferRate_generate: "bufferRate (generate rnd ty sr) = sr"
  by (simp add: generate_def createBuffer_def Let_def)

lemma length_channel0_generate:
  "length (channelData (generate rnd ty sr) ! 0) = nat \<lfloor>sr * 0.5\<rfloor>"
  by (simp add: generate_def createBuffer_def Let_def length_fillLoop)

text \<open>The kick is as described wherever half the sample rate is a whole number of frames:
  every frame of the buffer holds the swept sine under its envelope.\<close>

lemma kick_samples:
  assumes "k < nat \<lfloor>sr * 0.5\<rfloor>"
  shows "channelData (generate rnd ''kick'' sr) ! 0 ! k
           = sin (2 * pi * (150 * exp (- (real k / sr) * 15)) * (real k / sr))
               * exp (- (real k / sr) * 5)"
proof -
  have "real k < sr * 0.5" using assms by linarith
  then show ?thesis using assms
    by (simp add: generate_def createBuffer_def Let_def fillLoop_nth kickSample_def)
qed

text \<open>The hat's noise fills the first tenth of a second of its buffer; the frames after
  that keep the silence the buffer was created with.\<close>

lemma hat_samples:
  assumes "k < nat \<lfloor>sr * 0.5\<rfloor>"
  shows "channelData (generate rnd ''hat'' sr) ! 0 ! k
           = (if real k < sr * 0.1 then (rnd k * 2 - 1) * exp (- (real k / sr) * 40) else 0)"
  using assms
  by (simp add: generate_def createBuffer_def Let_def fillLoop_nth hatSample_def)

text \<open>
  C7. The claim gives the Hat preset a buffer of 0.1 s (\<open>sampleRate * 0.1\<close> samples). At a
  sample rate of 44100 the buffer \<open>generate\<close> returns for \<open>hat\<close> has 22050 frames and lasts
  half a second: the buffer is created with the default length before the hat branch
  lowers \<open>length\<close>, so frames 4410 to 22049 are there and silent.
\<close>

theorem hat_buffer_half_second:
  "frames (generate rnd ''hat'' 44100) = 22050 \<and>
   bufferDuration (generate rnd ''hat'' 44100) = 1/2 \<and>
   length (channelData (generate rnd ''hat'' 44100) ! 0) = 22050 \<and>
   channelData (generate rnd ''hat'' 44100) ! 0 ! 4410 = 0 \<and>
   channelData (generate rnd ''hat'' 44100) ! 0 ! 22049 = 0"
  apply (simp add: bufferDuration_def frames_generate bufferRate_generate length_channel0_generate)
  apply (simp add: generate_def createBuffer_def Let_def fillLoop_nth)
  done

subsection \<open>Channel.playNote\<close>

text \<open>
  C2. On a sampler channel with a buffer, \<open>playNote\<close> creates one buffer-source voice whose
  playback rate is \<open>2\<close> to the power \<open>(channel pitch + (pitch - 60)) / 12\<close>, started at
  \<open>time\<close> and stopped at \<open>time + bufferDuration / playbackRate\<close>. With channel pitch 0,
  pitch 72 gives rate 2 (a half-second buffer stops a quarter of a second after it
  starts) and pitch 60 gives rate 1.
\<close>

theorem playNote_sampler_rate:
  assumes "ch_type ch = ''sampler''" and "buffer ch = Some b"
  shows "\<exists>v. playNote ch time dur p vel st = st\<lparr>voices := voices st @ [SamplerVoice v]\<rparr>
           \<and> sv_playbackRate v = 2 powr (real_of_int (ch_pitch ch + (p - 60)) / 12)
           \<and> sv_start v = time
           \<and> sv_stop v = time + bufferDuration b / sv_playbackRate v
           \<and> (ch_pitch ch = 0 \<and> p = 72 \<longrightarrow> sv_playbackRate v = 2)
           \<and> (ch_pitch ch = 0 \<and> p = 72 \<and> bufferDuration b = 0.5 \<longrightarrow> sv_stop v = time + 0.25)
           \<and> (ch_pitch ch = 0 \<and> p = 60 \<longrightarrow> sv_playbackRate v = 1)"
proof -
  let ?dst = "if targetMixerTrack ch < length (mixerTracks st)
              then TrackInput (targetMixerTrack ch) else MasterGain"
  let ?r = "2 powr (real_of_int (ch_pitch ch + (p - 60)) / 12)"
  let ?v = "\<lparr> sv_buffer = b, sv_playbackRate = ?r, sv_gain = volume ch * vel, sv_dest = ?dst,
             sv_start = time, sv_stop = time + bufferDuration b / ?r \<rparr>"
  have run: "playNote ch time dur p vel st = st\<lparr>voices := voices st @ [SamplerVoice ?v]\<rparr>"
    using assms by (simp add: playNote_def Let_def)
  have r72: "ch_pitch ch = 0 \<and> p = 72 \<longrightarrow> ?r = 2" by simp
  have r60: "ch_pitch ch = 0 \<and> p = 60 \<longrightarrow> ?r = 1" by simp
  have s72: "ch_pitch ch = 0 \<and> p = 72 \<and> bufferDuration b = 0.5 \<longrightarrow>
               time + bufferDuration b / ?r = time + 0.25" by simp
  show ?thesis
    apply (rule exI [of _ ?v])
    apply (simp only: run sampler_voice.simps)
    using r72 r60 s72 apply simp
    done
qed

theorem playNote_sampler_rate_witness:
  "ch_type ((Channel 0 ''s'' ''sampler'')\<lparr>buffer := Some demoBuffer\<rparr>) = ''sampler'' \<and>
   buffer ((Channel 0 ''s'' ''sampler'')\<lparr>buffer := Some demoBuffer\<rparr>) = Some demoBuffer \<and>
   ch_pitch ((Channel 0 ''s'' ''sampler'')\<lparr>buffer := Some demoBuffer\<rparr>) = 0 \<and>
   bufferDuration demoBuffer = 0.5 \<and>
   (\<exists>v. playNote ((Channel 0 ''s'' ''sampler'')\<lparr>buffer := Some demoBuffer\<rparr>) 1 0.1 72 1 (DAW 4)
          = (DAW 4)\<lparr>voices := voices (DAW 4) @ [SamplerVoice v]\<rparr>
        \<and> sv_playbackRate v = 2 \<and> sv_stop v = 1 + 0.25) \<and>
   (\<exists>v. playNote ((Channel 0 ''s'' ''sampler'')\<lparr>buffer := Some demoBuffer\<rparr>) 1 0.1 60 1 (DAW 4)
          = (DAW 4)\<lparr>voices := voices (DAW 4) @ [SamplerVoice v]\<rparr>
        \<and> sv_playbackRate v = 1)"
proof -
  let ?c = "(Channel 0 ''s'' ''sampler'')\<lparr>buffer := Some demoBuffer\<rparr>"
  have t: "ch_type ?c = ''sampler''" by (simp add: Channel_def)
  have b: "buffer ?c = Some demoBuffer" by simp
  have p: "ch_pitch ?c = 0" by (simp add: Channel_def)
  have d: "bufferDuration demoBuffer = 0.5" by (simp add: bufferDuration_def demoBuffer_def)
  from playNote_sampler_rate [OF t b, of 1 "0.1" 72 1 "DAW 4"] p d
  have A: "\<exists>v. playNote ?c 1 0.1 72 1 (DAW 4) = (DAW 4)\<lparr>voices := voices (DAW 4) @ [SamplerVoice v]\<rparr>
        \<and> sv_playbackRate v = 2 \<and> sv_stop v = 1 + 0.25" by auto
  from playNote_sampler_rate [OF t b, of 1 "0.1" 60 1 "DAW 4"] p
  have B: "\<exists>v. playNote ?c 1 0.1 60 1 (DAW 4) = (DAW 4)\<lparr>voices := voices (DAW 4) @ [SamplerVoice v]\<rparr>
        \<and> sv_playbackRate v = 1" by auto
  show ?thesis using t b p d A B by blast
qed

text \<open>
  C4. On a sampler channel without a buffer, \<open>playNote\<close> does nothing: neither branch of
  its conditional is taken, so the engine state it returns is the state it was given (no
  voice, no connection to a track, no change to a channel). The function has no statement
  that raises, and this path dereferences nothing.
\<close>

theorem playNote_no_buffer_noop:
  assumes "ch_type ch = ''sampler''" and "buffer ch = None"
  shows "playNote ch time dur p vel st = st"
  using assms by (simp add: playNote_def)

theorem playNote_no_buffer_noop_witness:
  "ch_type (Channel 4 ''clap.wav'' ''sampler'') = ''sampler'' \<and>
   buffer (Channel 4 ''clap.wav'' ''sampler'') = None \<and>
   playNote (Channel 4 ''clap.wav'' ''sampler'') 0 0.1 60 1 (DAW 44100) = DAW 44100"
proof -
  have t: "ch_type (Channel 4 ''clap.wav'' ''sampler'') = ''sampler''" by (simp add: Channel_def)
  have b: "buffer (Channel 4 ''clap.wav'' ''sampler'') = None" by (simp add: Channel_def)
  show ?thesis using t b playNote_no_buffer_noop [OF t b, of 0 "0.1" 60 1 "DAW 44100"] by simp
qed

subsection \<open>Step cells\<close>

lemma stepActive_toggleStep: "stepActive (toggleStep i ss) i = (\<not> stepActive ss i)"
  by (simp add: stepActive_def toggleStep_def nth_append)

lemma toggleStep_twice_in_range: "i < length ss \<Longrightarrow> toggleStep i (toggleStep i ss) = ss"
  by (simp add: toggleStep_def)

text \<open>
  C6. Clicking step \<open>i\<close> of a channel twice gives the flag at \<open>i\<close> the value it had; for a
  step inside the channel's array the whole engine state is as before.
\<close>

theorem stepClick_twice:
  assumes "idx < length (channels st)"
  shows "stepActive (steps (channels (stepClick idx i (stepClick idx i st)) ! idx)) i
           = stepActive (steps (channels st ! idx)) i
         \<and> (i < length (steps (channels st ! idx)) \<longrightarrow>
              stepClick idx i (stepClick idx i st) = st)"
  using assms by (simp add: stepClick_def stepActive_toggleStep toggleStep_twice_in_range)

theorem stepClick_twice_witness:
  "(0::nat) < length (channels ((DAW 44100)\<lparr>channels := [leadWithNote]\<rparr>)) \<and>
   (5::nat) < length (steps (channels ((DAW 44100)\<lparr>channels := [leadWithNote]\<rparr>) ! 0)) \<and>
   stepActive (steps (channels (stepClick 0 5 (stepClick 0 5 ((DAW 44100)\<lparr>channels := [leadWithNote]\<rparr>))) ! 0)) 5
     = stepActive (steps (channels ((DAW 44100)\<lparr>channels := [leadWithNote]\<rparr>) ! 0)) 5 \<and>
   stepClick 0 5 (stepClick 0 5 ((DAW 44100)\<lparr>channels := [leadWithNote]\<rparr>))
     = (DAW 44100)\<lparr>channels := [leadWithNote]\<rparr>"
proof -
  let ?st = "(DAW 44100)\<lparr>channels := [leadWithNote]\<rparr>"
  have a: "(0::nat) < length (channels ?st)" by simp
  have b: "(5::nat) < length (steps (channels ?st ! 0))"
    by (simp add: leadWithNote_def Channel_def)
  show ?thesis using a b stepClick_twice [OF a, of 5] by blast
qed

subsection \<open>The piano roll\<close>

lemma findIndex_None_iff: "findIndex P xs = None \<longleftrightarrow> filter P xs = []"
  by (induction xs) (auto split: option.splits)

lemma findIndex_last:
  "filter P xs = [] \<Longrightarrow> P y \<Longrightarrow> findIndex P (xs @ [y]) = Some (length xs)"
  by (induction xs) (auto split: if_splits)


lemma noteMatches_newNote: "noteMatches p s (newNote p s)"
  by (simp add: noteMatches_def newNote_def)

lemma toggleNote_absent:
  assumes "filter (noteMatches p s) ns = []"
  shows "toggleNote p s ns = ns @ [newNote p s]" and "toggleNote p s (toggleNote p s ns) = ns"
proof -
  have n: "findIndex (noteMatches p s) ns = None" using assms by (simp add: findIndex_None_iff)
  then show a: "toggleNote p s ns = ns @ [newNote p s]" by (simp add: toggleNote_def)
  have "findIndex (noteMatches p s) (ns @ [newNote p s]) = Some (length ns)"
    using assms noteMatches_newNote by (rule findIndex_last)
  then show "toggleNote p s (toggleNote p s ns) = ns"
    unfolding a by (simp add: toggleNote_def)
qed






subsection \<open>Doubles\<close>

















subsection \<open>What scheduleNote does to the state\<close>

lemma callVoices_voices: "callVoices (s\<lparr>voices := V\<rparr>) ch t d p v = callVoices s ch t d p v"
  by (simp add: callVoices_def playNote_def Let_def)

lemma playNote_callVoices:
  "playNote ch (numVal t) (numVal d) p v s = s\<lparr>voices := voices s @ callVoices s ch t d p v\<rparr>"
  by (simp add: callVoices_def playNote_def Let_def)

lemma playCalls_voices:
  "playCalls ch cs s
     = s\<lparr>voices := voices s @ concat (map (\<lambda>(t, d, p, v). callVoices s ch t d p v) cs)\<rparr>"
proof (induction cs arbitrary: s)
  case Nil
  show ?case by (simp add: playCalls_def)
next
  case (Cons c cs)
  obtain t d p v where c: "c = (t, d, p, v)" by (cases c) auto
  define s1 where "s1 = s\<lparr>voices := voices s @ callVoices s ch t d p v\<rparr>"
  have "playCalls ch (c # cs) s = playCalls ch cs (playNote ch (numVal t) (numVal d) p v s)"
    by (simp add: playCalls_def c)
  also have "\<dots> = playCalls ch cs s1" by (simp only: playNote_callVoices s1_def)
  also have "\<dots> = s1\<lparr>voices := voices s1 @
                 concat (map (\<lambda>(t, d, p, v). callVoices s1 ch t d p v) cs)\<rparr>"
    by (rule Cons.IH)
  also have "\<dots> = s\<lparr>voices := voices s @
                 concat (map (\<lambda>(t, d, p, v). callVoices s ch t d p v) (c # cs))\<rparr>"
    by (simp add: s1_def c callVoices_voices)
  finally show ?case .
qed

lemma channels_fold_voices:
  "fold (\<lambda>ch s. playCalls ch (channelCalls (tempo s) stepNumber time ch) s) chs s
     = s\<lparr>voices := voices s @
          concat (map (\<lambda>ch. concat (map (\<lambda>(t, d, p, v). callVoices s ch t d p v)
                                      (channelCalls (tempo s) stepNumber time ch))) chs)\<rparr>"
proof (induction chs arbitrary: s)
  case Nil
  show ?case by simp
next
  case (Cons c chs)
  let ?F = "\<lambda>ch s. playCalls ch (channelCalls (tempo s) stepNumber time ch) s"
  define s1 where "s1 = s\<lparr>voices := voices s @
       concat (map (\<lambda>(t, d, p, v). callVoices s c t d p v) (channelCalls (tempo s) stepNumber time c))\<rparr>"
  have "fold ?F (c # chs) s = fold ?F chs (playCalls c (channelCalls (tempo s) stepNumber time c) s)"
    by simp
  also have "\<dots> = fold ?F chs s1" by (simp only: playCalls_voices s1_def)
  also have "\<dots> = s1\<lparr>voices := voices s1 @
          concat (map (\<lambda>ch. concat (map (\<lambda>(t, d, p, v). callVoices s1 ch t d p v)
                                      (channelCalls (tempo s1) stepNumber time ch))) chs)\<rparr>"
    by (rule Cons.IH)
  also have "\<dots> = s\<lparr>voices := voices s @
          concat (map (\<lambda>ch. concat (map (\<lambda>(t, d, p, v). callVoices s ch t d p v)
                                      (channelCalls (tempo s) stepNumber time ch))) (c # chs))\<rparr>"
    by (simp add: s1_def callVoices_voices)
  finally show ?case .
qed

lemma scheduleNote_eq:
  "scheduleNote stepNumber time st
     = st\<lparr>voices := voices st @
            concat (map (\<lambda>ch. concat (map (\<lambda>(t, d, p, v). callVoices st ch t d p v)
                                        (channelCalls (tempo st) stepNumber time ch))) (channels st)),
          emitted := emitted st @ [(stepNumber, time)]\<rparr>"
  unfolding scheduleNote_def by (subst channels_fold_voices) simp

lemma nextStep_scheduleNote:
  "nextStep (scheduleNote (currentStep st) (nextNoteTime st) st)
     = st\<lparr>voices := voices (scheduleNote (currentStep st) (nextNoteTime st) st),
          emitted := emitted st @ [(currentStep st, nextNoteTime st)],
          nextNoteTime := jsAdd (nextNoteTime st) (stepDuration (tempo st)),
          currentStep := (if Suc (currentStep st) = stepCount st then 0 else Suc (currentStep st))\<rparr>"
proof -
  define V where "V = voices (scheduleNote (currentStep st) (nextNoteTime st) st)"
  have eq: "scheduleNote (currentStep st) (nextNoteTime st) st
              = st\<lparr>voices := V, emitted := emitted st @ [(currentStep st, nextNoteTime st)]\<rparr>"
    unfolding V_def by (simp add: scheduleNote_eq)
  have "nextStep (scheduleNote (currentStep st) (nextNoteTime st) st)
          = st\<lparr>voices := V,
               emitted := emitted st @ [(currentStep st, nextNoteTime st)],
               nextNoteTime := jsAdd (nextNoteTime st) (stepDuration (tempo st)),
               currentStep := (if Suc (currentStep st) = stepCount st then 0
                               else Suc (currentStep st))\<rparr>"
    unfolding eq by (simp add: nextStep_def Let_def stepDuration_def)
  then show ?thesis by (simp only: V_def)
qed

subsection \<open>The scheduler loop\<close>

lemma stamps_shift: "stamps (jsAdd t d) d k = stamps t d (Suc k)"
  by (induction k) simp_all


lemma upt_Suc_shift: "map g [0..<Suc n] = g 0 # map (\<lambda>k. g (Suc k)) [0..<n]"
proof -
  have "[0..<Suc n] = 0 # map Suc [0..<n]"
    by (simp only: map_Suc_upt upt_conv_Cons [of 0 "Suc n"] zero_less_Suc if_True)
  then show ?thesis by (simp add: comp_def del: upt_Suc)
qed


text \<open>What a pass of the loop that returns has done: for some \<open>n\<close> it has emitted \<open>n\<close> events,
  the steps following the cursor, at the times \<open>stamps\<close> gives; \<open>n\<close> is the first index
  whose time is not inside the window.\<close>

lemma schedulerLoop_trace:
  assumes "schedulerLoop now st = Some st'" and "currentStep st < stepCount st"
  shows "\<exists>n. st' = st\<lparr>voices := voices st',
                  emitted := emitted st @
                    map (\<lambda>k. ((currentStep st + k) mod stepCount st,
                              stamps (nextNoteTime st) (stepDuration (tempo st)) k)) [0..<n],
                  nextNoteTime := stamps (nextNoteTime st) (stepDuration (tempo st)) n,
                  currentStep := (currentStep st + n) mod stepCount st\<rparr>
          \<and> \<not> jsLt (stamps (nextNoteTime st) (stepDuration (tempo st)) n)
                  (jsAdd (Fin now) (scheduleAheadTime st))
          \<and> (\<forall>k<n. jsLt (stamps (nextNoteTime st) (stepDuration (tempo st)) k)
                  (jsAdd (Fin now) (scheduleAheadTime st)))"
proof -
  let ?P = "\<lambda>now st st'. currentStep st < stepCount st \<longrightarrow>
       (\<exists>n. st' = st\<lparr>voices := voices st',
                  emitted := emitted st @
                    map (\<lambda>k. ((currentStep st + k) mod stepCount st,
                              stamps (nextNoteTime st) (stepDuration (tempo st)) k)) [0..<n],
                  nextNoteTime := stamps (nextNoteTime st) (stepDuration (tempo st)) n,
                  currentStep := (currentStep st + n) mod stepCount st\<rparr>
          \<and> \<not> jsLt (stamps (nextNoteTime st) (stepDuration (tempo st)) n)
                  (jsAdd (Fin now) (scheduleAheadTime st))
          \<and> (\<forall>k<n. jsLt (stamps (nextNoteTime st) (stepDuration (tempo st)) k)
                  (jsAdd (Fin now) (scheduleAheadTime st))))"
  have "?P now st st'"
  proof (rule schedulerLoop.raw_induct [where P = ?P, OF _ assms(1)])
    fix loop :: "real \<Rightarrow> daw \<Rightarrow> daw option" and now st st'
    assume IH: "\<And>now st st'. loop now st = Some st' \<Longrightarrow> ?P now st st'"
      and run: "(if jsLt (nextNoteTime st) (jsAdd (Fin now) (scheduleAheadTime st))
                 then loop now (nextStep (scheduleNote (currentStep st) (nextNoteTime st) st))
                 else Some st) = Some st'"
    let ?t = "nextNoteTime st" and ?d = "stepDuration (tempo st)"
    let ?c = "currentStep st" and ?S = "stepCount st"
    let ?B = "jsAdd (Fin now) (scheduleAheadTime st)"
    show "?P now st st'"
    proof
      assume c: "?c < ?S"
      show "\<exists>n. st' = st\<lparr>voices := voices st',
                  emitted := emitted st @ map (\<lambda>k. ((?c + k) mod ?S, stamps ?t ?d k)) [0..<n],
                  nextNoteTime := stamps ?t ?d n,
                  currentStep := (?c + n) mod ?S\<rparr>
          \<and> \<not> jsLt (stamps ?t ?d n) ?B \<and> (\<forall>k<n. jsLt (stamps ?t ?d k) ?B)"
      proof (cases "jsLt ?t ?B")
        case False
        with run have "st' = st" by simp
        then have "st' = st\<lparr>voices := voices st',
                  emitted := emitted st @ map (\<lambda>k. ((?c + k) mod ?S, stamps ?t ?d k)) [0..<0],
                  nextNoteTime := stamps ?t ?d 0,
                  currentStep := (?c + 0) mod ?S\<rparr>
          \<and> \<not> jsLt (stamps ?t ?d 0) ?B \<and> (\<forall>k<0. jsLt (stamps ?t ?d k) ?B)"
          using c False by simp
        then show ?thesis by blast
      next
        case True
        define s1 where "s1 = nextStep (scheduleNote ?c ?t st)"
        have s1: "s1 = st\<lparr>voices := voices (scheduleNote ?c ?t st),
              emitted := emitted st @ [(?c, ?t)],
              nextNoteTime := jsAdd ?t ?d,
              currentStep := (if Suc ?c = ?S then 0 else Suc ?c)\<rparr>"
          unfolding s1_def by (rule nextStep_scheduleNote)
        have f: "tempo s1 = tempo st" "stepCount s1 = ?S"
          "scheduleAheadTime s1 = scheduleAheadTime st"
          "nextNoteTime s1 = jsAdd ?t ?d" "emitted s1 = emitted st @ [(?c, ?t)]"
          by (simp_all add: s1)
        have c1: "currentStep s1 = Suc ?c mod ?S" using c by (simp add: s1)
        have c1': "currentStep s1 < stepCount s1" using c by (simp add: c1 f)
        from True run have "loop now s1 = Some st'" by (simp add: s1_def)
        from IH [OF this] c1' obtain n where
          eq: "st' = s1\<lparr>voices := voices st',
                  emitted := emitted s1 @
                    map (\<lambda>k. ((currentStep s1 + k) mod stepCount s1,
                              stamps (nextNoteTime s1) (stepDuration (tempo s1)) k)) [0..<n],
                  nextNoteTime := stamps (nextNoteTime s1) (stepDuration (tempo s1)) n,
                  currentStep := (currentStep s1 + n) mod stepCount s1\<rparr>"
          and ex: "\<not> jsLt (stamps (nextNoteTime s1) (stepDuration (tempo s1)) n)
                  (jsAdd (Fin now) (scheduleAheadTime s1))"
          and ins: "\<forall>k<n. jsLt (stamps (nextNoteTime s1) (stepDuration (tempo s1)) k)
                  (jsAdd (Fin now) (scheduleAheadTime s1))"
          by blast
        have md: "\<And>k. (Suc ?c mod ?S + k) mod ?S = (?c + Suc k) mod ?S"
          by (simp add: mod_add_left_eq)
        have cur0: "?c mod ?S = ?c" using c by simp
        have evs: "emitted s1 @
                    map (\<lambda>k. ((currentStep s1 + k) mod stepCount s1,
                              stamps (nextNoteTime s1) (stepDuration (tempo s1)) k)) [0..<n]
                 = emitted st @ map (\<lambda>k. ((?c + k) mod ?S, stamps ?t ?d k)) [0..<Suc n]"
          unfolding f c1 md stamps_shift
          by (subst upt_Suc_shift) (simp add: cur0)
        have a: "st' = st\<lparr>voices := voices st',
                  emitted := emitted st @ map (\<lambda>k. ((?c + k) mod ?S, stamps ?t ?d k)) [0..<Suc n],
                  nextNoteTime := stamps ?t ?d (Suc n),
                  currentStep := (?c + Suc n) mod ?S\<rparr>"
          by (subst eq, unfold evs, unfold f c1 md stamps_shift) (simp add: s1)
        have b: "\<not> jsLt (stamps ?t ?d (Suc n)) ?B"
          using ex unfolding f stamps_shift .
        have ins': "\<forall>k<n. jsLt (stamps ?t ?d (Suc k)) ?B"
          using ins unfolding f stamps_shift .
        have "jsLt (stamps ?t ?d k) ?B" if "k < Suc n" for k
        proof (cases k)
          case 0
          with True show ?thesis by simp
        next
          case (Suc j)
          with that ins' show ?thesis by simp
        qed
        with a b show ?thesis by blast
      qed
    qed
  qed
  with assms(2) show ?thesis by blast
qed

text \<open>A pass returns as soon as one of these times is not inside the window.\<close>

lemma schedulerLoop_returns:
  assumes "\<not> jsLt (stamps (nextNoteTime st) (stepDuration (tempo st)) n)
                  (jsAdd (Fin now) (scheduleAheadTime st))"
  shows "\<exists>st'. schedulerLoop now st = Some st'"
  using assms
proof (induction n arbitrary: st)
  case 0
  then have "schedulerLoop now st = Some st" by (subst schedulerLoop.simps) simp
  then show ?case by blast
next
  case (Suc n)
  show ?case
  proof (cases "jsLt (nextNoteTime st) (jsAdd (Fin now) (scheduleAheadTime st))")
    case False
    then have "schedulerLoop now st = Some st" by (subst schedulerLoop.simps) simp
    then show ?thesis by blast
  next
    case True
    define s1 where "s1 = nextStep (scheduleNote (currentStep st) (nextNoteTime st) st)"
    have f: "tempo s1 = tempo st" "scheduleAheadTime s1 = scheduleAheadTime st"
      "nextNoteTime s1 = jsAdd (nextNoteTime st) (stepDuration (tempo st))"
      unfolding s1_def by (subst nextStep_scheduleNote, simp)+
    have "\<not> jsLt (stamps (nextNoteTime s1) (stepDuration (tempo s1)) n)
                  (jsAdd (Fin now) (scheduleAheadTime s1))"
      using Suc.prems unfolding f stamps_shift .
    from Suc.IH [OF this] obtain st' where "schedulerLoop now s1 = Some st'" by blast
    then have "schedulerLoop now st = Some st'"
      using True by (subst schedulerLoop.simps) (simp add: s1_def)
    then show ?thesis by blast
  qed
qed

subsection \<open>The transport\<close>


lemma scheduler_returns:
  assumes "\<not> jsLt (stamps (nextNoteTime st) (stepDuration (tempo st)) k)
                  (jsAdd (Fin now) (scheduleAheadTime st))"
  shows "\<exists>st'. scheduler now st = Some st'"
proof -
  from schedulerLoop_returns [OF assms] obtain s1 where "schedulerLoop now st = Some s1"
    by blast
  then show ?thesis by (simp add: scheduler_def)
qed



lemma start_unfold:
  "\<not> isPlaying st \<Longrightarrow>
   start_seq now st = scheduler now
        (st\<lparr>resumeRequested := (ctxState st = Suspended \<or> resumeRequested st),
            isPlaying := True, currentStep := 0, nextNoteTime := Fin now\<rparr>)"
  by (simp add: start_seq_def)










subsection \<open>Every reachable state is well formed\<close>

lemma length_fold_snoc: "length (fold (\<lambda>i ts. ts @ [f i ts]) xs ys) = length ys + length xs"
  by (induction xs arbitrary: ys) simp_all

lemma wellFormed_voices: "wellFormed (st\<lparr>voices := V\<rparr>) = wellFormed st"
  by (simp add: wellFormed_def)

lemma wellFormed_base:
  "wellFormed ((DAW sr)\<lparr>mixerTracks := fold (\<lambda>i ts. ts @ [MixerTrack i ts]) [0..<17] []\<rparr>)"
  by (simp add: wellFormed_def DAW_def length_fold_snoc)

lemma wellFormed_append:
  assumes "wellFormed st" and "targetMixerTrack c = length (channels st) mod 16 + 1"
    and "notesOk (pianoRollNotes c)"
  shows "wellFormed (st\<lparr>channels := channels st @ [c]\<rparr>)"
  using assms by (auto simp add: wellFormed_def nth_append less_Suc_eq)

lemma notesOk_Nil: "notesOk []"
  by (simp add: notesOk_def)

lemma wellFormed_createChannel:
  assumes "wellFormed st"
  shows "wellFormed (createChannel rnd nm ty key st)"
proof -
  obtain c where c: "createChannel rnd nm ty key st = st\<lparr>channels := channels st @ [c]\<rparr>"
    and t: "targetMixerTrack c = length (channels st) mod 16 + 1"
    and n: "pianoRollNotes c = []"
    by (cases key) (simp_all add: createChannel_def Let_def Channel_def)
  show ?thesis unfolding c using assms t by (rule wellFormed_append) (simp add: n notesOk_Nil)
qed

lemma wellFormed_init: "wellFormed (init rs rh sr)"
  by (simp add: init_def Let_def wellFormed_createChannel wellFormed_base)

lemma wellFormed_update:
  assumes "wellFormed st" and "targetMixerTrack c = targetMixerTrack (channels st ! idx)"
    and "notesOk (pianoRollNotes c)"
  shows "wellFormed (st\<lparr>channels := (channels st)[idx := c]\<rparr>)"
proof -
  have "targetMixerTrack ((channels st)[idx := c] ! k) = k mod 16 + 1 \<and>
        notesOk (pianoRollNotes ((channels st)[idx := c] ! k))"
    if "k < length (channels st)" for k
  proof (cases "k = idx")
    case True
    with that assms show ?thesis by (simp add: wellFormed_def)
  next
    case False
    with that assms(1) show ?thesis by (simp add: wellFormed_def)
  qed
  then show ?thesis using assms(1) by (simp add: wellFormed_def)
qed

lemma wellFormed_loadSample:
  assumes "wellFormed st"
  shows "wellFormed (loadSample fileName b st)"
proof -
  let ?s = "createChannel (\<lambda>_. 0) (take 10 fileName) ''sampler'' None st"
  let ?k = "length (channels st)"
  have w: "wellFormed ?s" using assms by (rule wellFormed_createChannel)
  have k: "?k < length (channels ?s)" by (simp add: createChannel_def Let_def)
  have n: "notesOk (pianoRollNotes (channels ?s ! ?k))" using w k by (simp add: wellFormed_def)
  have "wellFormed (?s\<lparr>channels := (channels ?s)[?k := (channels ?s ! ?k)\<lparr>buffer := Some b\<rparr>]\<rparr>)"
    using w by (rule wellFormed_update) (simp_all add: n)
  then show ?thesis by (simp add: loadSample_def Let_def)
qed

lemma wellFormed_stepClick:
  assumes "wellFormed st" and "idx < length (channels st)"
  shows "wellFormed (stepClick idx i st)"
proof -
  have "notesOk (pianoRollNotes (channels st ! idx))" using assms by (simp add: wellFormed_def)
  then show ?thesis
    unfolding stepClick_def using assms(1) by (intro wellFormed_update) simp_all
qed

lemma findIndex_Some_less: "findIndex P xs = Some k \<Longrightarrow> k < length xs"
  by (induction xs arbitrary: k) (auto split: if_splits option.splits)

lemma distinct_remove_nth: "distinct xs \<Longrightarrow> distinct (take k xs @ drop (Suc k) xs)"
  by (simp add: set_take_disj_set_drop_if_distinct)

lemma notesOk_newNote_absent:
  assumes "notesOk ns" and "filter (noteMatches p s) ns = []"
  shows "notesOk (ns @ [newNote p s])"
proof -
  have "newNote p s \<notin> set ns"
  proof
    assume "newNote p s \<in> set ns"
    with noteMatches_newNote [of p s] have "newNote p s \<in> set (filter (noteMatches p s) ns)" by simp
    with assms(2) show False by simp
  qed
  moreover have "newNote p s = newNote (pitch (newNote p s)) \<lfloor>start (newNote p s)\<rfloor>"
    by (simp add: newNote_def)
  ultimately show ?thesis using assms(1) by (auto simp add: notesOk_def)
qed

lemma notesOk_toggleNote:
  assumes "notesOk ns"
  shows "notesOk (toggleNote p s ns)"
proof (cases "findIndex (noteMatches p s) ns")
  case None
  then have e: "filter (noteMatches p s) ns = []" by (simp add: findIndex_None_iff)
  from notesOk_newNote_absent [OF assms e] show ?thesis by (simp add: toggleNote_absent(1) [OF e])
next
  case (Some k)
  have sub: "set (take k ns @ drop (Suc k) ns) \<subseteq> set ns"
    using set_take_subset set_drop_subset by fastforce
  have "distinct (take k ns @ drop (Suc k) ns)"
    using assms by (intro distinct_remove_nth) (simp add: notesOk_def)
  with sub assms have "notesOk (take k ns @ drop (Suc k) ns)"
    unfolding notesOk_def by blast
  with Some show ?thesis by (simp add: toggleNote_def)
qed

lemma wellFormed_handleInput:
  assumes "wellFormed st"
  shows "wellFormed (handleInput x y st)"
proof (cases "selectedChannelIndex st < length (channels st)")
  case True
  have "notesOk (pianoRollNotes (channels st ! selectedChannelIndex st))"
    using assms True by (simp add: wellFormed_def)
  then have "notesOk (toggleNote (clickPitch y) (clickStep x)
                 (pianoRollNotes (channels st ! selectedChannelIndex st)))"
    by (rule notesOk_toggleNote)
  then have "wellFormed (st\<lparr>channels := (channels st)[selectedChannelIndex st :=
          (channels st ! selectedChannelIndex st)\<lparr>pianoRollNotes :=
             toggleNote (clickPitch y) (clickStep x)
               (pianoRollNotes (channels st ! selectedChannelIndex st))\<rparr>]\<rparr>)"
    using assms by (intro wellFormed_update) simp_all
  with True show ?thesis by (simp add: handleInput_def Let_def)
next
  case False
  with assms show ?thesis by (simp add: handleInput_def Let_def)
qed

lemma playNote_frame:
  "playNote ch time dur p vel st = st\<lparr>voices := voices (playNote ch time dur p vel st)\<rparr>"
  by (simp add: playNote_def Let_def)

lemma wellFormed_midiNoteOn:
  assumes "wellFormed st"
  shows "wellFormed (midiNoteOn now nt vel st)"
proof (cases "vel > 0 \<and> selectedChannelIndex st < length (channels st)")
  case True
  have "wellFormed (playNote (channels st ! selectedChannelIndex st) now 0.5 nt (vel / 127) st)"
    by (subst playNote_frame) (simp add: wellFormed_voices assms)
  with True show ?thesis by (simp add: midiNoteOn_def)
next
  case False
  with assms show ?thesis by (auto simp add: midiNoteOn_def)
qed

lemma removeAll_only: "\<forall>j \<in> set ps. j = i \<Longrightarrow> removeAll i ps = []"
  by (induction ps) auto

lemma pending_all_same:
  assumes "\<forall>i \<in> set ps. h = Some i"
  shows "clearTimeout h ps = []"
proof (cases h)
  case None
  with assms have "ps = []" by (cases ps) auto
  then show ?thesis using None by (simp add: clearTimeout_def)
next
  case (Some j)
  with assms have "\<forall>i \<in> set ps. i = j" by auto
  then have "removeAll j ps = []" by (rule removeAll_only)
  with Some show ?thesis by (simp add: clearTimeout_def)
qed

lemma wellFormed_stop:
  assumes "wellFormed st"
  shows "wellFormed (stop_seq st)" and "pending (stop_seq st) = []"
proof -
  have "\<forall>i \<in> set (pending st). timerID st = Some i" using assms by (simp add: wellFormed_def)
  then have e: "clearTimeout (timerID st) (pending st) = []" by (rule pending_all_same)
  show "pending (stop_seq st) = []" by (simp add: stop_seq_def e)
  show "wellFormed (stop_seq st)" using assms by (simp add: stop_seq_def e wellFormed_def)
qed

lemma wellFormed_scheduler:
  assumes "wellFormed st" and "pending st = []" and "scheduler now st = Some st'"
  shows "wellFormed st'"
proof -
  from assms(3) obtain s1 where l: "schedulerLoop now st = Some s1"
    and r: "st' = (if isPlaying s1 then setTimeout s1 else s1)"
    by (auto simp add: scheduler_def split: option.splits)
  have c: "currentStep st < stepCount st" and S: "stepCount st = 16"
    using assms(1) by (simp_all add: wellFormed_def)
  from schedulerLoop_trace [OF l c] obtain n where
    k: "s1 = st\<lparr>voices := voices s1,
                  emitted := emitted st @
                    map (\<lambda>k. ((currentStep st + k) mod stepCount st,
                              stamps (nextNoteTime st) (stepDuration (tempo st)) k)) [0..<n],
                  nextNoteTime := stamps (nextNoteTime st) (stepDuration (tempo st)) n,
                  currentStep := (currentStep st + n) mod stepCount st\<rparr>"
    by blast
  have f: "mixerTracks s1 = mixerTracks st" "stepCount s1 = stepCount st"
    "pending s1 = pending st"
    "timerID s1 = timerID st" "isPlaying s1 = isPlaying st" "channels s1 = channels st"
    "currentStep s1 = (currentStep st + n) mod stepCount st"
    by (subst k, simp)+
  have c': "currentStep s1 < stepCount s1" unfolding f S by simp
  have w1: "wellFormed s1" using assms(1) c' unfolding wellFormed_def f(1-6) by simp
  show ?thesis
  proof (cases "isPlaying s1")
    case True
    have "wellFormed (setTimeout s1)"
      using w1 assms(2) f(3) True by (simp add: wellFormed_def setTimeout_def)
    with True r show ?thesis by simp
  next
    case False
    with r w1 show ?thesis by simp
  qed
qed

lemma wellFormed_start:
  assumes "wellFormed st" and "start_seq now st = Some st'"
  shows "wellFormed st'"
proof (cases "isPlaying st")
  case True
  with assms show ?thesis by (simp add: start_seq_def)
next
  case False
  let ?s0 = "st\<lparr>resumeRequested := (ctxState st = Suspended \<or> resumeRequested st),
                 isPlaying := True, currentStep := 0, nextNoteTime := Fin now\<rparr>"
  have p: "pending st = []" using assms(1) False by (simp add: wellFormed_def)
  have w: "wellFormed ?s0" using assms(1) p by (simp add: wellFormed_def)
  have "scheduler now ?s0 = Some st'" using assms(2) False by (simp add: start_seq_def)
  moreover have "pending ?s0 = []" by (simp add: p)
  ultimately show ?thesis using w by (blast intro: wellFormed_scheduler)
qed

lemma wellFormed_timerFires:
  assumes "wellFormed st" and "timerFires i now st = Some st'"
  shows "wellFormed st'"
proof (cases "i \<in> set (pending st)")
  case False
  with assms show ?thesis by (simp add: timerFires_def)
next
  case True
  let ?s0 = "st\<lparr>pending := removeAll i (pending st)\<rparr>"
  have all: "\<forall>j \<in> set (pending st). timerID st = Some j" using assms(1) by (simp add: wellFormed_def)
  with True have "timerID st = Some i" by blast
  with all have "\<forall>j \<in> set (pending st). j = i" by auto
  then have e: "removeAll i (pending st) = []" by (rule removeAll_only)
  have pl: "isPlaying st" using assms(1) True by (auto simp add: wellFormed_def)
  have w: "wellFormed ?s0" using assms(1) e by (simp add: wellFormed_def)
  have "scheduler now ?s0 = Some st'" using assms(2) True by (simp add: timerFires_def)
  moreover have "pending ?s0 = []" by (simp add: e)
  ultimately show ?thesis using w by (blast intro: wellFormed_scheduler)
qed

lemma reachable_wellFormed: "reachable st \<Longrightarrow> wellFormed st"
proof (induction rule: reachable.induct)
  case (r_init rs rh sr)
  show ?case by (rule wellFormed_init)
next
  case (r_add st rnd)
  then show ?case by (simp add: wellFormed_createChannel)
next
  case (r_load st fileName b)
  then show ?case by (simp add: wellFormed_loadSample)
next
  case (r_select st idx)
  then show ?case by (simp add: wellFormed_def)
next
  case (r_step st idx i)
  then show ?case by (simp add: wellFormed_stepClick)
next
  case (r_piano st x y)
  then show ?case by (simp add: wellFormed_handleInput)
next
  case (r_tempo st bpm)
  then show ?case by (simp add: wellFormed_def)
next
  case (r_fader st t val)
  then show ?case by (simp add: wellFormed_def)
next
  case (r_midi st now nt vel)
  then show ?case by (simp add: wellFormed_midiNoteOn)
next
  case (r_start st now st')
  then show ?case by (blast intro: wellFormed_start)
next
  case (r_stop st)
  then show ?case by (simp add: wellFormed_stop(1))
next
  case (r_timer st i now st')
  then show ?case by (blast intro: wellFormed_timerFires)
qed

subsection \<open>Notes of reachable states\<close>






lemma init_channels: "length (channels (init rs rh sr)) = 4"
  by (simp add: init_def Let_def createChannel_def DAW_def)






subsection \<open>Routing of channels\<close>

text \<open>
  C9. In every reachable state (after \<open>AudioEngine.init\<close> with its four default channels,
  and after any sequence of add-channel, sample import and the other handlers), the
  channel at position \<open>k\<close> has \<open>targetMixerTrack = k mod 16 + 1\<close>: a value from 1 to 16,
  the number of insert tracks (there are 17 mixer tracks, the master at index 0), never 0.
  Since the value is fixed by the channel's position, no operation changes it.
\<close>

theorem targetMixerTrack_in_range:
  assumes "reachable st" and "k < length (channels st)"
  shows "targetMixerTrack (channels st ! k) = k mod 16 + 1
       \<and> 1 \<le> targetMixerTrack (channels st ! k)
       \<and> targetMixerTrack (channels st ! k) \<le> length (mixerTracks st) - 1
       \<and> targetMixerTrack (channels st ! k) \<noteq> 0
       \<and> length (mixerTracks st) = 17"
proof -
  have w: "wellFormed st" using assms(1) by (rule reachable_wellFormed)
  then have t: "targetMixerTrack (channels st ! k) = k mod 16 + 1"
    and l: "length (mixerTracks st) = 17"
    using assms(2) by (simp_all add: wellFormed_def)
  have "k mod 16 < 16" by simp
  with t l show ?thesis by simp
qed

theorem targetMixerTrack_in_range_witness:
  "reachable (init (\<lambda>_. 0) (\<lambda>_. 0) 44100) \<and>
   2 < length (channels (init (\<lambda>_. 0) (\<lambda>_. 0) 44100)) \<and>
   targetMixerTrack (channels (init (\<lambda>_. 0) (\<lambda>_. 0) 44100) ! 2) = 3 \<and>
   length (mixerTracks (init (\<lambda>_. 0) (\<lambda>_. 0) 44100)) = 17"
proof -
  have a: "reachable (init (\<lambda>_. 0) (\<lambda>_. 0) 44100)" by (rule r_init)
  have b: "2 < length (channels (init (\<lambda>_. 0) (\<lambda>_. 0) 44100))" by (simp add: init_channels)
  from targetMixerTrack_in_range [OF a b] show ?thesis using a b by simp
qed

subsection \<open>Start and Stop\<close>


lemma start_returns:
  assumes np: "\<not> isPlaying st"
    and out: "\<not> jsLt (stamps (Fin now) (stepDuration (tempo st)) N)
                 (jsAdd (Fin now) (scheduleAheadTime st))"
  shows "\<exists>st'. start_seq now st = Some st'"
proof -
  define s0 where "s0 = st\<lparr>resumeRequested := (ctxState st = Suspended \<or> resumeRequested st),
                 isPlaying := True, currentStep := 0, nextNoteTime := Fin now\<rparr>"
  have "\<not> jsLt (stamps (nextNoteTime s0) (stepDuration (tempo s0)) N)
                  (jsAdd (Fin now) (scheduleAheadTime s0))"
    using out by (simp add: s0_def)
  from scheduler_returns [OF this] obtain s1 where "scheduler now s0 = Some s1" by blast
  then show ?thesis using np by (simp add: start_seq_def s0_def)
qed





text \<open>With the tempo field at 0 the step is \<open>Infinity\<close>, and with the field empty it is
  \<open>NaN\<close>: the next-event time after the first event is not below any window, and Start
  returns.\<close>

lemma stepDuration_zero: "stepDuration (Fin 0) = PosInf" "stepDuration NaN = NaN"
  by (simp_all add: stepDuration_def jsDiv_def jsMul_def signedInf_def)

lemma start_returns_tempo_zero:
  assumes "\<not> isPlaying st" and "tempo st = Fin 0 \<or> tempo st = NaN"
  shows "\<exists>st'. start_seq now st = Some st'"
proof -
  have "\<not> jsLt (stamps (Fin now) (stepDuration (tempo st)) (Suc 0))
           (jsAdd (Fin now) (scheduleAheadTime st))"
    using assms(2) by (auto simp add: stepDuration_zero jsAdd_def jsLt_def)
  with assms(1) show ?thesis by (rule start_returns)
qed





subsection \<open>A channel whose mixer track is missing\<close>

text \<open>In the states the page reaches every channel has its mixer track, so that the
  second arm of \<open>track ? track.input : DAW.masterGain\<close> is not taken there; the statement
  below is about \<open>playNote\<close> on any state, with a track list that is empty or too short.\<close>

lemma reachable_track_exists:
  assumes "reachable st" and "k < length (channels st)"
  shows "targetMixerTrack (channels st ! k) < length (mixerTracks st)"
proof -
  have w: "wellFormed st" using assms(1) by (rule reachable_wellFormed)
  then have "targetMixerTrack (channels st ! k) = k mod 16 + 1" "length (mixerTracks st) = 17"
    using assms(2) by (simp_all add: wellFormed_def)
  moreover have "k mod 16 < 16" by simp
  ultimately show ?thesis by simp
qed

lemma init_kick_lead:
  "channels (init rs rh sr) ! 0 = (Channel 0 ''Kick'' ''sampler'')\<lparr>buffer := Some (generate rs ''kick'' sr)\<rparr>"
  "channels (init rs rh sr) ! 3 = Channel 3 ''Lead'' ''synth''"
  by (simp_all add: init_def Let_def createChannel_def DAW_def nth_append numeral_3_eq_3)

lemma kick_duration: "bufferDuration (generate rs ''kick'' 44100) = 0.5"
  by (simp add: bufferDuration_def frames_generate bufferRate_generate)

text \<open>
  C10. When \<open>DAW.mixerTracks\<close> has no track at the channel's \<open>targetMixerTrack\<close> (the list
  is empty or the index is beyond its end), \<open>playNote\<close> raises nothing and still makes the
  voice of the call, the one it makes when the track is there, connected to the master
  gain instead of a track input. On a sampler with a buffer it is the buffer source with
  that buffer, the rate of the pitch, the gain \<open>volume * velocity\<close>, started at \<open>time\<close>
  and stopped at \<open>time + duration of the buffer / rate\<close>; on a synth it is the oscillator
  at the frequency of the pitch with its envelope over \<open>time\<close> and \<open>time + dur\<close>. Nothing
  else in the state changes.
\<close>

theorem playNote_missing_track_master:
  assumes "length (mixerTracks st) \<le> targetMixerTrack ch"
  shows "(ch_type ch = ''sampler'' \<and> buffer ch = Some b \<longrightarrow>
            playNote ch time dur p vel st = st\<lparr>voices := voices st @
              [SamplerVoice \<lparr> sv_buffer = b,
                 sv_playbackRate = 2 powr (real_of_int (ch_pitch ch + (p - 60)) / 12),
                 sv_gain = volume ch * vel, sv_dest = MasterGain, sv_start = time,
                 sv_stop = time + bufferDuration b
                             / 2 powr (real_of_int (ch_pitch ch + (p - 60)) / 12) \<rparr>]\<rparr>)
       \<and> (ch_type ch = ''synth'' \<longrightarrow>
            playNote ch time dur p vel st = st\<lparr>voices := voices st @
              [SynthVoice \<lparr> osc_frequency = 440 * 2 powr (real_of_int (p - 69) / 12),
                 osc_dest = MasterGain, osc_start = time,
                 env_peak = volume ch * vel, env_attackEnd = time + 0.01,
                 env_sustain = volume ch * vel * 0.5,
                 env_decayEnd = time + 0.01 + 0.1,
                 env_releaseStart = time + dur, env_releaseEnd = time + dur + 0.2,
                 osc_stop = time + dur + 0.2 + 0.1 \<rparr>]\<rparr>)"
proof -
  have d: "\<not> targetMixerTrack ch < length (mixerTracks st)" using assms by simp
  have A: "ch_type ch = ''sampler'' \<and> buffer ch = Some b \<longrightarrow>
            playNote ch time dur p vel st = st\<lparr>voices := voices st @
              [SamplerVoice \<lparr> sv_buffer = b,
                 sv_playbackRate = 2 powr (real_of_int (ch_pitch ch + (p - 60)) / 12),
                 sv_gain = volume ch * vel, sv_dest = MasterGain, sv_start = time,
                 sv_stop = time + bufferDuration b
                             / 2 powr (real_of_int (ch_pitch ch + (p - 60)) / 12) \<rparr>]\<rparr>"
    using d by (simp add: playNote_def Let_def)
  have B: "ch_type ch = ''synth'' \<longrightarrow>
            playNote ch time dur p vel st = st\<lparr>voices := voices st @
              [SynthVoice \<lparr> osc_frequency = 440 * 2 powr (real_of_int (p - 69) / 12),
                 osc_dest = MasterGain, osc_start = time,
                 env_peak = volume ch * vel, env_attackEnd = time + 0.01,
                 env_sustain = volume ch * vel * 0.5,
                 env_decayEnd = time + 0.01 + 0.1,
                 env_releaseStart = time + dur, env_releaseEnd = time + dur + 0.2,
                 osc_stop = time + dur + 0.2 + 0.1 \<rparr>]\<rparr>"
    using d by (simp add: playNote_def Let_def)
  from A B show ?thesis by blast
qed

theorem playNote_missing_track_master_witness:
  "length (mixerTracks ((init (\<lambda>_. 0) (\<lambda>_. 0) 44100)\<lparr>mixerTracks := []\<rparr>))
      \<le> targetMixerTrack (channels (init (\<lambda>_. 0) (\<lambda>_. 0) 44100) ! 3) \<and>
   ch_type (channels (init (\<lambda>_. 0) (\<lambda>_. 0) 44100) ! 3) = ''synth'' \<and>
   playNote (channels (init (\<lambda>_. 0) (\<lambda>_. 0) 44100) ! 3) 2 (1/2) 69 1
       ((init (\<lambda>_. 0) (\<lambda>_. 0) 44100)\<lparr>mixerTracks := []\<rparr>)
     = (init (\<lambda>_. 0) (\<lambda>_. 0) 44100)\<lparr>mixerTracks := [], voices :=
         [SynthVoice \<lparr> osc_frequency = 440, osc_dest = MasterGain, osc_start = 2,
            env_peak = 0.8, env_attackEnd = 2.01, env_sustain = 0.4, env_decayEnd = 2.11,
            env_releaseStart = 2.5, env_releaseEnd = 2.7, osc_stop = 2.8 \<rparr>]\<rparr> \<and>
   length (mixerTracks ((init (\<lambda>_. 0) (\<lambda>_. 0) 44100)\<lparr>mixerTracks := [MixerTrack 0 []]\<rparr>))
      \<le> targetMixerTrack (channels (init (\<lambda>_. 0) (\<lambda>_. 0) 44100) ! 0) \<and>
   ch_type (channels (init (\<lambda>_. 0) (\<lambda>_. 0) 44100) ! 0) = ''sampler'' \<and>
   buffer (channels (init (\<lambda>_. 0) (\<lambda>_. 0) 44100) ! 0) = Some (generate (\<lambda>_. 0) ''kick'' 44100) \<and>
   playNote (channels (init (\<lambda>_. 0) (\<lambda>_. 0) 44100) ! 0) 2 (1/10) 72 1
       ((init (\<lambda>_. 0) (\<lambda>_. 0) 44100)\<lparr>mixerTracks := [MixerTrack 0 []]\<rparr>)
     = (init (\<lambda>_. 0) (\<lambda>_. 0) 44100)\<lparr>mixerTracks := [MixerTrack 0 []], voices :=
         [SamplerVoice \<lparr> sv_buffer = generate (\<lambda>_. 0) ''kick'' 44100, sv_playbackRate = 2,
            sv_gain = 0.8, sv_dest = MasterGain, sv_start = 2, sv_stop = 2.25 \<rparr>]\<rparr>"
proof -
  let ?i = "init (\<lambda>_. 0) (\<lambda>_. 0) 44100"
  let ?lead = "channels ?i ! 3" and ?kick = "channels ?i ! 0"
  let ?s1 = "?i\<lparr>mixerTracks := []\<rparr>" and ?s2 = "?i\<lparr>mixerTracks := [MixerTrack 0 []]\<rparr>"
  have v: "voices ?i = []" by (simp add: init_def Let_def createChannel_def DAW_def)
  have a1: "length (mixerTracks ?s1) \<le> targetMixerTrack ?lead" by simp
  have t1: "ch_type ?lead = ''synth''" "volume ?lead = 0.8"
    by (simp_all add: init_kick_lead Channel_def)
  have a2: "length (mixerTracks ?s2) \<le> targetMixerTrack ?kick"
    by (simp add: init_kick_lead Channel_def)
  have t2: "ch_type ?kick = ''sampler''" "buffer ?kick = Some (generate (\<lambda>_. 0) ''kick'' 44100)"
    "volume ?kick = 0.8" "ch_pitch ?kick = 0"
    by (simp_all add: init_kick_lead Channel_def)
  from playNote_missing_track_master [OF a1, of demoBuffer 2 "1/2" 69 1] t1(1)
  have "playNote ?lead 2 (1/2) 69 1 ?s1 = ?s1\<lparr>voices := voices ?s1 @
              [SynthVoice \<lparr> osc_frequency = 440 * 2 powr (real_of_int (69 - 69) / 12),
                 osc_dest = MasterGain, osc_start = 2,
                 env_peak = volume ?lead * 1, env_attackEnd = 2 + 0.01,
                 env_sustain = volume ?lead * 1 * 0.5,
                 env_decayEnd = 2 + 0.01 + 0.1,
                 env_releaseStart = 2 + 1/2, env_releaseEnd = 2 + 1/2 + 0.2,
                 osc_stop = 2 + 1/2 + 0.2 + 0.1 \<rparr>]\<rparr>"
    by blast
  then have r1: "playNote ?lead 2 (1/2) 69 1 ?s1 = ?i\<lparr>mixerTracks := [], voices :=
         [SynthVoice \<lparr> osc_frequency = 440, osc_dest = MasterGain, osc_start = 2,
            env_peak = 0.8, env_attackEnd = 2.01, env_sustain = 0.4, env_decayEnd = 2.11,
            env_releaseStart = 2.5, env_releaseEnd = 2.7, osc_stop = 2.8 \<rparr>]\<rparr>"
    by (simp add: t1 v)
  from playNote_missing_track_master [OF a2, of "generate (\<lambda>_. 0) ''kick'' 44100" 2 "1/10" 72 1] t2(1,2)
  have "playNote ?kick 2 (1/10) 72 1 ?s2 = ?s2\<lparr>voices := voices ?s2 @
              [SamplerVoice \<lparr> sv_buffer = generate (\<lambda>_. 0) ''kick'' 44100,
                 sv_playbackRate = 2 powr (real_of_int (ch_pitch ?kick + (72 - 60)) / 12),
                 sv_gain = volume ?kick * 1, sv_dest = MasterGain, sv_start = 2,
                 sv_stop = 2 + bufferDuration (generate (\<lambda>_. 0) ''kick'' 44100)
                             / 2 powr (real_of_int (ch_pitch ?kick + (72 - 60)) / 12) \<rparr>]\<rparr>"
    by blast
  then have r2: "playNote ?kick 2 (1/10) 72 1 ?s2 = ?i\<lparr>mixerTracks := [MixerTrack 0 []], voices :=
         [SamplerVoice \<lparr> sv_buffer = generate (\<lambda>_. 0) ''kick'' 44100, sv_playbackRate = 2,
            sv_gain = 0.8, sv_dest = MasterGain, sv_start = 2, sv_stop = 2.25 \<rparr>]\<rparr>"
    by (simp add: t2 v kick_duration)
  from a1 t1(1) r1 a2 t2(1,2) r2 show ?thesis by blast
qed

subsection \<open>What scheduleNote plays\<close>





















end
